theory Spec2Isabelle
  imports Complex_Main "HOL-Library.Char_ord" "HOL-Library.List_Lexorder"
begin

section \<open>rpoco: reflection metadata and the generic visit dispatch\<close>

text \<open>
  A shallow embedding of \<^verbatim>\<open>src/rpoco/rpoco.hpp\<close>: the per-type registry
  (\<^verbatim>\<open>rpoco::type_info\<close>, filled by the \<^verbatim>\<open>RPOCO\<close> macro) and the family of
  \<^verbatim>\<open>rpoco::visit<F>\<close> specialisations that walk a value with a visitor.
\<close>

subsection \<open>Static types of reflected members\<close>

text \<open>
  \<^verbatim>\<open>rpoco::visit\<close> is selected by the static type of its target. The three owning
  reference specialisations (\<^verbatim>\<open>F*\<close>, \<^verbatim>\<open>std::shared_ptr<F>\<close>, \<^verbatim>\<open>std::unique_ptr<F>\<close>)
  have the same body and share one constructor; \<open>TRecord n\<close> is a class that carries an
  \<^verbatim>\<open>RPOCO(...)\<close> declaration and is handled by the generic template.
\<close>

datatype visit_type =
  vt_none | vt_error | vt_object | vt_array | vt_null | vt_bool | vt_number | vt_string

datatype ptr_kind = RawPtr | SharedPtr | UniquePtr

datatype shape =
    TInt
  | TDouble
  | TString
  | TBuf nat
  | TVector shape
  | TMap shape
  | TPtr ptr_kind shape
  | TRecord string
  | TNil

datatype error = Mismatch | NullDeref | OutOfRange | IllTyped

subsection \<open>Members and the registry \<^verbatim>\<open>type_info\<close>\<close>

text \<open>
  \<^verbatim>\<open>class member\<close> with its only subclass \<^verbatim>\<open>field<F>\<close>: the name, the offset of the
  member inside its object, and the template argument \<open>F\<close>.
\<close>

record member =
  m_name :: string
  m_offset :: nat
  m_type :: shape

text \<open>
  \<^verbatim>\<open>type_info\<close>: the vector \<^verbatim>\<open>fields\<close> (here \<open>fields_vec\<close>), the \<^verbatim>\<open>unordered_map\<close>
  \<^verbatim>\<open>m_named_fields\<close> (an entry may hold the null pointer, \<open>Some None\<close>) and the flag
  \<^verbatim>\<open>m_is_init\<close>. The mutex only serialises \<^verbatim>\<open>init\<close> and is not part of the state.
\<close>

record type_info =
  fields_vec :: "member list"
  m_named_fields :: "string \<rightharpoonup> member option"
  m_is_init :: int

text \<open>A \<^verbatim>\<open>static rpoco::type_info ti;\<close> before its first use: zero-initialised flag, empty containers.\<close>

definition static_ti :: type_info where
  "static_ti = \<lparr>fields_vec = [], m_named_fields = Map.empty, m_is_init = 0\<rparr>"

definition ti_size :: "type_info \<Rightarrow> nat" where
  "ti_size ti = length (fields_vec ti)"

definition has :: "type_info \<Rightarrow> string \<Rightarrow> bool" where
  "has ti ident = (m_named_fields ti ident \<noteq> None)"

text \<open>\<^verbatim>\<open>operator[](int idx)\<close>: \<^verbatim>\<open>fields[idx]\<close>; an index past the end is an error.\<close>

definition at_index :: "type_info \<Rightarrow> nat \<Rightarrow> error + member" where
  "at_index ti idx = (if idx < length (fields_vec ti) then Inr (fields_vec ti ! idx) else Inl OutOfRange)"

text \<open>
  \<^verbatim>\<open>operator[](std::string id)\<close>: \<^verbatim>\<open>m_named_fields[id]\<close>. On a key that is absent
  \<^verbatim>\<open>unordered_map::operator[]\<close> inserts a value-initialised (null) pointer, so the call
  returns the pointer together with the table as it is afterwards.
\<close>

definition at_name :: "type_info \<Rightarrow> string \<Rightarrow> member option \<times> type_info" where
  "at_name ti ident =
     (case m_named_fields ti ident of
        Some p \<Rightarrow> (p, ti)
      | None \<Rightarrow> (None, ti\<lparr>m_named_fields := (m_named_fields ti)(ident \<mapsto> None)\<rparr>))"

definition is_init :: "type_info \<Rightarrow> int" where
  "is_init ti = m_is_init ti"

definition add :: "type_info \<Rightarrow> member \<Rightarrow> type_info" where
  "add ti fb =
     ti\<lparr>fields_vec := fields_vec ti @ [fb],
        m_named_fields := (m_named_fields ti)(m_name fb \<mapsto> Some fb)\<rparr>"

definition init :: "type_info \<Rightarrow> (type_info \<Rightarrow> error + type_info) \<Rightarrow> error + type_info" where
  "init ti initfun =
     (if m_is_init ti = 0 then
        (case initfun ti of Inl e \<Rightarrow> Inl e | Inr ti' \<Rightarrow> Inr (ti'\<lparr>m_is_init := 1\<rparr>))
      else Inr ti)"

subsection \<open>The \<^verbatim>\<open>RPOCO\<close> macro\<close>

text \<open>\<^verbatim>\<open>std::isspace\<close> in the C locale.\<close>

definition isspace :: "char \<Rightarrow> bool" where
  "isspace c = (c \<in> {CHR '' '', CHR 0x09, CHR 0x0A, CHR 0x0B, CHR 0x0C, CHR 0x0D})"

definition is_sep :: "char \<Rightarrow> bool" where
  "is_sep c = (isspace c \<or> c = CHR '','')"

text \<open>
  \<^verbatim>\<open>extract_macro_names\<close>: the stringified macro arguments are cut at commas and white
  space. \<open>scan_names t tok out\<close> is the main loop with \<open>t\<close> the text from the cursor on,
  \<open>tok\<close> the characters between \<^verbatim>\<open>s\<close> and \<^verbatim>\<open>t\<close>, and \<open>out\<close> the names pushed so far.
\<close>

function scan_names :: "string \<Rightarrow> string \<Rightarrow> string list \<Rightarrow> string list" where
  "scan_names [] tok out = (if tok \<noteq> [] then out @ [tok] else out)"
| "scan_names (c # cs) tok out =
     (if c = CHR '','' \<or> isspace c
      then scan_names (dropWhile is_sep (c # cs)) [] (out @ [tok])
      else scan_names cs (tok @ [c]) out)"
  by pat_completeness auto
termination
proof (relation "measure (\<lambda>(t, tok, out). length t)")
  show "wf (measure (\<lambda>(t, tok, out). length t))" by simp
next
  fix c :: char and cs tok :: string and out :: "string list"
  assume "c = CHR '','' \<or> isspace c"
  then have "dropWhile is_sep (c # cs) = dropWhile is_sep cs"
    by (auto simp: is_sep_def)
  moreover have "length (dropWhile is_sep cs) \<le> length cs"
    by (rule length_dropWhile_le)
  ultimately show "((dropWhile is_sep (c # cs), [], out @ [tok]), (c # cs, tok, out))
      \<in> measure (\<lambda>(t, tok, out). length t)"
    by simp
next
  fix c :: char and cs tok :: string and out :: "string list"
  show "((cs, tok @ [c], out), (c # cs, tok, out)) \<in> measure (\<lambda>(t, tok, out). length t)"
    by simp
qed

definition extract_macro_names :: "string \<Rightarrow> string list" where
  "extract_macro_names t = scan_names (dropWhile is_sep t) [] []"

subsection \<open>Objects\<close>

text \<open>
  The values the dispatch can be pointed at, one constructor per static type. An
  \<^verbatim>\<open>int\<close> and a \<^verbatim>\<open>double\<close> are carried as numbers (the dispatch never computes with
  them), a \<^verbatim>\<open>char[SZ]\<close> buffer as its \<open>SZ\<close> characters, a \<^verbatim>\<open>std::map\<close> as its entries
  in key order, an owning reference as the held instance if any (the pointee is owned,
  so values are trees), and an object of a reflected class as the list of its members,
  a member's offset being its position in that list.
\<close>

datatype val =
    VInt int
  | VDouble rat
  | VStr string
  | VBuf string
  | VVec "val list"
  | VMap "(string \<times> val) list"
  | VPtr "val option"
  | VRec "val list"
  | VNil

text \<open>
  One use of \<^verbatim>\<open>RPOCO(...)\<close> inside a class: the stringified argument list
  \<^verbatim>\<open>#__VA_ARGS__\<close>, the members the arguments refer to (offset inside the object and
  static type, as \<^verbatim>\<open>rpoco_type_info_expand\<close> sees them) and the value of a
  value-initialised instance \<^verbatim>\<open>F()\<close> of the class.
\<close>

record decl =
  va_args :: string
  heads :: "(nat \<times> shape) list"
  ctor :: val

text \<open>
  \<^verbatim>\<open>rpoco_type_info_expand\<close>: one \<^verbatim>\<open>ti->add(new rpoco::field<H>(names[idx],off))\<close> per
  argument, left to right. \<^verbatim>\<open>names[idx]\<close> past the end of the vector is an error.
\<close>

fun rpoco_type_info_expand ::
  "type_info \<Rightarrow> string list \<Rightarrow> nat \<Rightarrow> (nat \<times> shape) list \<Rightarrow> error + type_info" where
  "rpoco_type_info_expand ti names idx [] = Inr ti"
| "rpoco_type_info_expand ti names idx ((off, H) # rest) =
     (if idx < length names
      then rpoco_type_info_expand
             (add ti \<lparr>m_name = names ! idx, m_offset = off, m_type = H\<rparr>) names (idx + 1) rest
      else Inl OutOfRange)"

text \<open>
  \<^verbatim>\<open>rpoco_type_info_get\<close>, applied to the state of the function's
  \<^verbatim>\<open>static rpoco::type_info ti\<close>; it returns the table \<^verbatim>\<open>&ti\<close> points to afterwards.
\<close>

definition rpoco_type_info_get :: "decl \<Rightarrow> type_info \<Rightarrow> error + type_info" where
  "rpoco_type_info_get d ti =
     (if is_init ti = 0
      then init ti (\<lambda>ti. rpoco_type_info_expand ti (extract_macro_names (va_args d)) 0 (heads d))
      else Inr ti)"

subsection \<open>The visitor\<close>

text \<open>
  Modelled from the spec: the concrete visitor (section 4.2, Visitor Contract);
  \<^verbatim>\<open>struct visitor\<close> is abstract in the header, and the format collaborators that
  implement it are not part of the sources. A visitor that writes answers \<^verbatim>\<open>vt_none\<close> to \<^verbatim>\<open>peek\<close> and \<^verbatim>\<open>false\<close> to \<^verbatim>\<open>consume\<close>, and its
  output is the sequence of calls it receives. A visitor that reads is positioned on one
  unit of structured input; \<^verbatim>\<open>peek\<close> reports the kind of that unit, \<^verbatim>\<open>consume\<close> invokes
  the callback once per child, in source order, with the visitor positioned on that
  child, and a leaf visit stores the unit's value into the referenced variable. A unit
  that does not fit the call (a structural mismatch) makes the visitor fail, and the
  failure propagates through the dispatch.

  The state of \<^verbatim>\<open>visitor &v\<close> is its position \<open>inp\<close> (\<open>None\<close> for a visitor that writes)
  and the calls it has received. Every operation returns the calls it adds, in order,
  next to its result; \<open>seq\<close> runs two steps one after the other.
\<close>

datatype data =
    DNull
  | DBool bool
  | DNum rat
  | DStr string
  | DArr "data list"
  | DObj "(string \<times> data) list"

datatype event =
    EvConsume visit_type
  | EvStart visit_type
  | EvEnd visit_type
  | EvNull
  | EvBool bool
  | EvInt int
  | EvDouble rat
  | EvStr string
  | EvBuf string

type_synonym 'a res = "error + event list \<times> 'a"

definition pre :: "event list \<Rightarrow> 'a res \<Rightarrow> 'a res" where
  "pre evs r = (case r of Inl e \<Rightarrow> Inl e | Inr p \<Rightarrow> Inr (evs @ fst p, snd p))"

definition seq :: "'a res \<Rightarrow> ('a \<Rightarrow> 'b res) \<Rightarrow> 'b res" where
  "seq m f = (case m of Inl e \<Rightarrow> Inl e | Inr p \<Rightarrow> pre (fst p) (f (snd p)))"

definition ret :: "'a \<Rightarrow> 'a res" where
  "ret a = Inr ([], a)"

fun kind :: "data \<Rightarrow> visit_type" where
  "kind DNull = vt_null"
| "kind (DBool b) = vt_bool"
| "kind (DNum q) = vt_number"
| "kind (DStr s) = vt_string"
| "kind (DArr ds) = vt_array"
| "kind (DObj kvs) = vt_object"

definition peek :: "data option \<Rightarrow> visit_type" where
  "peek inp = (case inp of None \<Rightarrow> vt_none | Some u \<Rightarrow> kind u)"

text \<open>The children a reading visitor discovers in a unit; an array item has the empty key.\<close>

fun children :: "data \<Rightarrow> (string \<times> data) list" where
  "children (DObj kvs) = kvs"
| "children (DArr ds) = map (Pair []) ds"
| "children u = []"

text \<open>
  \<^verbatim>\<open>consume(vt, out)\<close>. The state \<open>a\<close> stands for the variables the callback captured
  by reference; the callback is given the child's key and the position of the visitor
  while it runs.
\<close>

fun consume_children ::
  "(string \<Rightarrow> data option \<Rightarrow> 'a \<Rightarrow> 'a res) \<Rightarrow> (string \<times> data) list \<Rightarrow> 'a \<Rightarrow> 'a res" where
  "consume_children out [] a = ret a"
| "consume_children out (kd # r) a =
     seq (out (fst kd) (Some (snd kd)) a) (\<lambda>a'. consume_children out r a')"

definition v_consume ::
  "visit_type \<Rightarrow> (string \<Rightarrow> data option \<Rightarrow> 'a \<Rightarrow> 'a res) \<Rightarrow> data option \<Rightarrow> 'a \<Rightarrow> (bool \<times> 'a) res" where
  "v_consume vt out inp a =
     (case inp of
        None \<Rightarrow> ret (False, a)
      | Some u \<Rightarrow>
          if kind u = vt \<and> (vt = vt_object \<or> vt = vt_array) then
            pre [EvConsume vt] (seq (consume_children out (children u) a) (\<lambda>a'. ret (True, a')))
          else Inl Mismatch)"

definition v_produce_start :: "visit_type \<Rightarrow> unit res" where
  "v_produce_start vt = Inr ([EvStart vt], ())"

definition v_produce_end :: "visit_type \<Rightarrow> unit res" where
  "v_produce_end vt = Inr ([EvEnd vt], ())"

definition v_visit_null :: "data option \<Rightarrow> unit res" where
  "v_visit_null inp =
     (case inp of
        None \<Rightarrow> Inr ([EvNull], ())
      | Some DNull \<Rightarrow> Inr ([EvNull], ())
      | Some _ \<Rightarrow> Inl Mismatch)"

definition v_visit_bool :: "data option \<Rightarrow> bool \<Rightarrow> bool res" where
  "v_visit_bool inp b =
     (case inp of
        None \<Rightarrow> Inr ([EvBool b], b)
      | Some (DBool b') \<Rightarrow> Inr ([EvBool b'], b')
      | Some _ \<Rightarrow> Inl Mismatch)"

definition v_visit_int :: "data option \<Rightarrow> int \<Rightarrow> int res" where
  "v_visit_int inp x =
     (case inp of
        None \<Rightarrow> Inr ([EvInt x], x)
      | Some (DNum q) \<Rightarrow> if of_int \<lfloor>q\<rfloor> = q then Inr ([EvInt \<lfloor>q\<rfloor>], \<lfloor>q\<rfloor>) else Inl Mismatch
      | Some _ \<Rightarrow> Inl Mismatch)"

definition v_visit_double :: "data option \<Rightarrow> rat \<Rightarrow> rat res" where
  "v_visit_double inp x =
     (case inp of
        None \<Rightarrow> Inr ([EvDouble x], x)
      | Some (DNum q) \<Rightarrow> Inr ([EvDouble q], q)
      | Some _ \<Rightarrow> Inl Mismatch)"

definition v_visit_string :: "data option \<Rightarrow> string \<Rightarrow> string res" where
  "v_visit_string inp k =
     (case inp of
        None \<Rightarrow> Inr ([EvStr k], k)
      | Some (DStr k') \<Rightarrow> Inr ([EvStr k'], k')
      | Some _ \<Rightarrow> Inl Mismatch)"

text \<open>\<^verbatim>\<open>visit(char *, size_t sz)\<close>: reading fills the buffer with the text, cut or padded to \<open>sz\<close>.\<close>

definition v_visit_buf :: "nat \<Rightarrow> data option \<Rightarrow> string \<Rightarrow> string res" where
  "v_visit_buf sz inp str =
     (case inp of
        None \<Rightarrow> Inr ([EvBuf str], str)
      | Some (DStr k) \<Rightarrow>
          Inr ([EvBuf (take sz (k @ replicate sz (CHR 0x00)))], take sz (k @ replicate sz (CHR 0x00)))
      | Some _ \<Rightarrow> Inl Mismatch)"

subsection \<open>The dispatch \<^verbatim>\<open>rpoco::visit<F>\<close>\<close>

type_synonym env = "string \<Rightarrow> decl"
type_synonym registry = "string \<Rightarrow> type_info"

text \<open>Value-initialisation \<^verbatim>\<open>F()\<close>, as \<^verbatim>\<open>new F()\<close>, \<^verbatim>\<open>emplace_back()\<close> and \<^verbatim>\<open>mp[x]\<close> perform it.\<close>

fun new_val :: "env \<Rightarrow> shape \<Rightarrow> val" where
  "new_val E TInt = VInt 0"
| "new_val E TDouble = VDouble 0"
| "new_val E TString = VStr []"
| "new_val E (TBuf sz) = VBuf (replicate sz (CHR 0x00))"
| "new_val E (TVector F) = VVec []"
| "new_val E (TMap F) = VMap []"
| "new_val E (TPtr k F) = VPtr None"
| "new_val E (TRecord n) = ctor (E n)"
| "new_val E TNil = VNil"

text \<open>
  \<^verbatim>\<open>std::map\<close>: entries are kept in key order. \<open>map_at mp x\<close> is the value \<^verbatim>\<open>mp[x]\<close> refers
  to (a value-initialised one if the key is new) and \<open>map_put\<close> stores a value under a key.
\<close>

definition map_at :: "env \<Rightarrow> shape \<Rightarrow> (string \<times> val) list \<Rightarrow> string \<Rightarrow> val" where
  "map_at E F mp x = (case map_of mp x of Some y \<Rightarrow> y | None \<Rightarrow> new_val E F)"

fun map_put :: "string \<Rightarrow> val \<Rightarrow> (string \<times> val) list \<Rightarrow> (string \<times> val) list" where
  "map_put k v [] = [(k, v)]"
| "map_put k v (p # r) =
     (if k < fst p then (k, v) # p # r
      else if k = fst p then (k, v) # r
      else p # map_put k v r)"

text \<open>
  \<^verbatim>\<open>field<F>::visit(v, p)\<close>: \<^verbatim>\<open>rpoco::visit<F>(v, *(F*)(p + m_offset))\<close>. The dispatch is
  passed in as \<open>vis\<close> (the call is virtual and \<^verbatim>\<open>rpoco::visit\<close> calls back into it),
  and the object \<^verbatim>\<open>p\<close> points to is given by its members.
\<close>

definition field_visit ::
  "(shape \<Rightarrow> data option \<Rightarrow> val \<Rightarrow> val res) \<Rightarrow> member \<Rightarrow> data option \<Rightarrow> val list \<Rightarrow> (val list) res" where
  "field_visit vis m inp ms =
     (if m_offset m < length ms then
        seq (vis (m_type m) inp (ms ! m_offset m)) (\<lambda>x'. ret (ms[m_offset m := x']))
      else Inl OutOfRange)"

text \<open>A loop of the produce branch: the body runs once per element, in order.\<close>

fun for_each :: "('a \<Rightarrow> unit res) \<Rightarrow> 'a list \<Rightarrow> unit res" where
  "for_each body [] = ret ()"
| "for_each body (x # xs) = seq (body x) (\<lambda>_. for_each body xs)"

lemma pre_simps [simp]:
  "pre evs (Inl e) = Inl e"
  "pre evs (Inr (evs', a)) = Inr (evs @ evs', a)"
  "pre [] r = r"
  "pre evs (pre evs' r) = pre (evs @ evs') r"
  by (auto simp: pre_def split: sum.splits)

lemma seq_simps [simp]:
  "seq (Inl e) f = Inl e"
  "seq (Inr (evs, a)) f = pre evs (f a)"
  "seq (ret a) f = f a"
  "seq (pre evs m) f = pre evs (seq m f)"
  by (auto simp: seq_def ret_def pre_def split: sum.splits)

lemma pre_ret [simp]: "pre evs (ret a) = Inr (evs, a)"
  by (simp add: ret_def)

lemma seq_cong [fundef_cong]:
  assumes "m = m'" and "\<And>evs a. m' = Inr (evs, a) \<Longrightarrow> f a = f' a"
  shows "seq m f = seq m' f'"
  using assms by (auto simp: seq_def split: sum.splits)

lemma consume_children_cong [fundef_cong]:
  assumes "kvs = kvs'" "a = a'"
    and "\<And>k d b. (k, d) \<in> set kvs' \<Longrightarrow> out k (Some d) b = out' k (Some d) b"
  shows "consume_children out kvs a = consume_children out' kvs' a'"
  unfolding assms(1,2) using assms(3)
proof (induction kvs' arbitrary: a')
  case Nil
  show ?case by simp
next
  case (Cons kd kvs')
  have "out (fst kd) (Some (snd kd)) a' = out' (fst kd) (Some (snd kd)) a'"
    by (rule Cons.prems) simp
  moreover have "consume_children out kvs' = consume_children out' kvs'"
    by (rule ext, rule Cons.IH, rule Cons.prems) simp
  ultimately show ?case by simp
qed

lemma v_consume_cong [fundef_cong]:
  assumes "vt = vt'" "inp = inp'" "a = a'"
    and "\<And>k d u b. inp' = Some u \<Longrightarrow> (k, d) \<in> set (children u) \<Longrightarrow> out k (Some d) b = out' k (Some d) b"
  shows "v_consume vt out inp a = v_consume vt' out' inp' a'"
proof (cases inp')
  case None
  with assms show ?thesis by (simp add: v_consume_def)
next
  case (Some u)
  have "consume_children out (children u) a' = consume_children out' (children u) a'"
    by (rule consume_children_cong) (use assms(4) Some in auto)
  with Some assms(1-3) show ?thesis by (auto simp: v_consume_def)
qed

lemma field_visit_cong [fundef_cong]:
  assumes "m = m'" "inp = inp'" "ms = ms'"
    and "m_offset m' < length ms' \<Longrightarrow>
            vis (m_type m') inp' (ms' ! m_offset m') = vis' (m_type m') inp' (ms' ! m_offset m')"
  shows "field_visit vis m inp ms = field_visit vis' m' inp' ms'"
  using assms by (auto simp: field_visit_def)

lemma for_each_cong [fundef_cong]:
  assumes "xs = ys" and "\<And>x. x \<in> set ys \<Longrightarrow> body x = body' x"
  shows "for_each body xs = for_each body' ys"
  unfolding assms(1) using assms(2) by (induction ys) simp_all

lemma size_data_obj: "(k, d) \<in> set kvs \<Longrightarrow> size d < size (DObj kvs)"
  by (induction kvs) auto

lemma size_data_arr: "d \<in> set ds \<Longrightarrow> size d < size (DArr ds)"
  by (induction ds) auto

lemma children_size: "(k, d) \<in> set (children u) \<Longrightarrow> size d < size u"
  by (cases u) (auto simp del: data.size dest: size_data_obj size_data_arr)

lemma size_val_vec: "x \<in> set xs \<Longrightarrow> size x < size (VVec xs)"
  by (induction xs) auto

lemma size_val_map: "p \<in> set kvs \<Longrightarrow> size (snd p) < size (VMap kvs)"
  by (induction kvs) auto

lemma size_val_rec_mem: "x \<in> set ms \<Longrightarrow> size x < size (VRec ms)"
  by (induction ms) auto

lemma size_val_rec: "i < length ms \<Longrightarrow> size (ms ! i) < size (VRec ms)"
  by (rule size_val_rec_mem) simp

lemma size_nth_less [termination_simp]:
  fixes ms :: "val list"
  shows "i < length ms \<Longrightarrow> size (ms ! i) < Suc (size_list size ms)"
  using size_val_rec [of i ms] by simp

lemma v_consume_False: "v_consume vt out inp a = Inr (evs, c) \<Longrightarrow> \<not> fst c \<Longrightarrow> inp = None"
  by (auto simp: v_consume_def ret_def seq_def pre_def split: option.splits if_splits sum.splits)

text \<open>
  The dispatch, one equation per specialisation of \<^verbatim>\<open>rpoco::visit\<close>; the generic
  template is the equation for \<open>TRecord\<close>. \<open>E\<close> gives each reflected class its \<^verbatim>\<open>RPOCO\<close>
  declaration and \<open>R\<close> the state of its \<^verbatim>\<open>static type_info\<close> when the call starts. A
  call returns the calls the visitor received and the target as it is afterwards. A
  target whose value does not have the static type cannot occur in the source and yields
  \<open>IllTyped\<close>.

  In the produce branch (\<^verbatim>\<open>consume\<close> returned false) the visitor only reads through the
  references it is given, so the loops keep the visitor's calls and the target is
  returned as it was (\<open>visit_write_target\<close> below: a nested call returns its target
  unchanged). The uninitialised locals of \<^verbatim>\<open>visit<niltarget>\<close> are given a fixed initial
  value; the reading visitor overwrites them.
\<close>

function visit :: "env \<Rightarrow> registry \<Rightarrow> shape \<Rightarrow> data option \<Rightarrow> val \<Rightarrow> val res" where
  "visit E R (TRecord n) inp t =
     (case t of
        VRec ms \<Rightarrow>
          (case rpoco_type_info_get (E n) (R n) of
             Inl e \<Rightarrow> Inl e
           | Inr fp \<Rightarrow>
               seq (v_consume vt_object
                      (\<lambda>nm inp' f.
                         if \<not> has fp nm then
                           seq (visit E R TNil inp' VNil) (\<lambda>nt. ret f)
                         else
                           (case fst (at_name fp nm) of
                              None \<Rightarrow> Inl NullDeref
                            | Some m \<Rightarrow> field_visit (visit E R) m inp' f))
                      inp ms)
                 (\<lambda>c. if fst c then ret (VRec (snd c))
                      else
                        seq (v_produce_start vt_object) (\<lambda>_.
                        seq (for_each
                               (\<lambda>i. case at_index fp i of
                                       Inl e \<Rightarrow> Inl e
                                     | Inr m \<Rightarrow>
                                         seq (v_visit_string inp (m_name m)) (\<lambda>_.
                                         seq (field_visit (visit E R) m inp ms) (\<lambda>_.
                                         ret ())))
                               [0..<ti_size fp]) (\<lambda>_.
                        seq (v_produce_end vt_object) (\<lambda>_.
                        ret (VRec ms))))))
      | _ \<Rightarrow> Inl IllTyped)"
| "visit E R (TMap F) inp t =
     (case t of
        VMap mp \<Rightarrow>
          seq (v_consume vt_object
                 (\<lambda>x inp' mp'.
                    seq (visit E R F inp' (map_at E F mp' x)) (\<lambda>y. ret (map_put x y mp')))
                 inp mp)
            (\<lambda>c. if fst c then ret (VMap (snd c))
                 else
                   seq (v_produce_start vt_object) (\<lambda>_.
                   seq (for_each
                          (\<lambda>p. seq (v_visit_string inp (fst p)) (\<lambda>_.
                                seq (visit E R F inp (snd p)) (\<lambda>_.
                                ret ())))
                          mp) (\<lambda>_.
                   seq (v_produce_end vt_object) (\<lambda>_.
                   ret (VMap mp)))))
      | _ \<Rightarrow> Inl IllTyped)"
| "visit E R TNil inp t =
     (case t of
        VNil \<Rightarrow>
          (case peek inp of
             vt_null \<Rightarrow> seq (v_visit_null inp) (\<lambda>_. ret VNil)
           | vt_number \<Rightarrow> seq (v_visit_double inp 0) (\<lambda>d. ret VNil)
           | vt_bool \<Rightarrow> seq (v_visit_bool inp False) (\<lambda>b. ret VNil)
           | vt_string \<Rightarrow> seq (v_visit_string inp []) (\<lambda>str. ret VNil)
           | vt_array \<Rightarrow>
               seq (v_consume vt_array (\<lambda>propname inp' nt. visit E R TNil inp' VNil) inp VNil)
                   (\<lambda>_. ret VNil)
           | vt_object \<Rightarrow>
               seq (v_consume vt_object (\<lambda>propname inp' nt. visit E R TNil inp' VNil) inp VNil)
                   (\<lambda>_. ret VNil)
           | _ \<Rightarrow> ret VNil)
      | _ \<Rightarrow> Inl IllTyped)"
| "visit E R (TVector F) inp t =
     (case t of
        VVec vp \<Rightarrow>
          seq (v_consume vt_array
                 (\<lambda>x inp' vp'. seq (visit E R F inp' (new_val E F)) (\<lambda>y. ret (vp' @ [y])))
                 inp vp)
            (\<lambda>c. if fst c then ret (VVec (snd c))
                 else
                   seq (v_produce_start vt_array) (\<lambda>_.
                   seq (for_each (\<lambda>f. seq (visit E R F inp f) (\<lambda>_. ret ())) vp) (\<lambda>_.
                   seq (v_produce_end vt_array) (\<lambda>_.
                   ret (VVec vp)))))
      | _ \<Rightarrow> Inl IllTyped)"
| "visit E R (TPtr k F) inp t =
     (case t of
        VPtr fp \<Rightarrow>
          (case (if peek inp \<noteq> vt_null \<and> peek inp \<noteq> vt_none \<and> fp = None
                 then Some (new_val E F) else fp) of
             Some x \<Rightarrow> seq (visit E R F inp x) (\<lambda>x'. ret (VPtr (Some x')))
           | None \<Rightarrow> seq (v_visit_null inp) (\<lambda>_. ret (VPtr None)))
      | _ \<Rightarrow> Inl IllTyped)"
| "visit E R TInt inp t =
     (case t of VInt ip \<Rightarrow> seq (v_visit_int inp ip) (\<lambda>ip'. ret (VInt ip')) | _ \<Rightarrow> Inl IllTyped)"
| "visit E R TDouble inp t =
     (case t of VDouble ip \<Rightarrow> seq (v_visit_double inp ip) (\<lambda>ip'. ret (VDouble ip')) | _ \<Rightarrow> Inl IllTyped)"
| "visit E R TString inp t =
     (case t of VStr str \<Rightarrow> seq (v_visit_string inp str) (\<lambda>str'. ret (VStr str')) | _ \<Rightarrow> Inl IllTyped)"
| "visit E R (TBuf SZ) inp t =
     (case t of VBuf str \<Rightarrow> seq (v_visit_buf SZ inp str) (\<lambda>str'. ret (VBuf str')) | _ \<Rightarrow> Inl IllTyped)"
  by pat_completeness auto

termination
proof (relation "(\<lambda>(E, R, F, inp, t). (case inp of Some u \<Rightarrow> size u | None \<Rightarrow> size t))
                   <*mlex*> measure (\<lambda>(E, R, F, inp, t). size F)", goal_cases)
  case 1
  show ?case by (simp add: wf_mlex)
next
  case 2
  then show ?case by (auto simp: mlex_prod_def dest: children_size)
next
  case 3
  then show ?case by (auto simp: mlex_prod_def dest: children_size)
next
  case 4
  then show ?case
    by (auto simp: mlex_prod_def simp del: val.size dest!: v_consume_False intro: size_val_rec)
next
  case 5
  then show ?case by (auto simp: mlex_prod_def dest: children_size)
next
  case 6
  then show ?case
    by (auto simp: mlex_prod_def simp del: val.size dest!: v_consume_False intro: size_val_map)
next
  case 7
  then show ?case by (auto simp: mlex_prod_def dest: children_size)
next
  case 8
  then show ?case by (auto simp: mlex_prod_def dest: children_size)
next
  case 9
  then show ?case by (auto simp: mlex_prod_def dest: children_size)
next
  case 10
  then show ?case
    by (auto simp: mlex_prod_def simp del: val.size dest!: v_consume_False intro: size_val_vec)
next
  case 11
  then show ?case
    by (auto simp: mlex_prod_def peek_def split: option.splits if_splits)
qed

declare visit.simps [simp del]

subsection \<open>Reference notions for the dispatch\<close>

text \<open>The value a call ends with, or its failure, without the visitor's calls.\<close>

definition outcome :: "'a res \<Rightarrow> error + 'a" where
  "outcome r = map_sum id snd r"

text \<open>Runs the steps of a list in order and collects their results.\<close>

fun collect_res :: "'a res list \<Rightarrow> ('a list) res" where
  "collect_res [] = ret []"
| "collect_res (r # rs) = seq r (\<lambda>x. seq (collect_res rs) (\<lambda>xs. ret (x # xs)))"

text \<open>
  What the discard sink is specified to do with a unit of input (section 4.3): one leaf
  visit for a scalar; for a composite, begin reading it and drain every child in turn.
\<close>

fun drain :: "data \<Rightarrow> event list" where
  "drain DNull = [EvNull]"
| "drain (DBool b) = [EvBool b]"
| "drain (DNum q) = [EvDouble q]"
| "drain (DStr s) = [EvStr s]"
| "drain (DArr ds) = EvConsume vt_array # concat (map drain ds)"
| "drain (DObj kvs) = EvConsume vt_object # concat (map (\<lambda>kd. drain (snd kd)) kvs)"

text \<open>The calls of a step that succeeds.\<close>

definition events_of :: "'a res \<Rightarrow> event list" where
  "events_of r = (case r of Inl e \<Rightarrow> [] | Inr p \<Rightarrow> fst p)"

text \<open>The callback the generic template passes to \<^verbatim>\<open>consume\<close>, for the table \<open>fp\<close>.\<close>

definition member_cb ::
  "env \<Rightarrow> registry \<Rightarrow> type_info \<Rightarrow> string \<Rightarrow> data option \<Rightarrow> val list \<Rightarrow> (val list) res" where
  "member_cb E R fp nm inp' f =
     (if \<not> has fp nm then seq (visit E R TNil inp' VNil) (\<lambda>nt. ret f)
      else (case fst (at_name fp nm) of
              None \<Rightarrow> Inl NullDeref
            | Some m \<Rightarrow> field_visit (visit E R) m inp' f))"

subsection \<open>Properties of the registry\<close>

text \<open>
  The members a declaration declares, in the order of the macro's arguments: the \<open>i\<close>-th
  name next to the \<open>i\<close>-th argument. \<open>built d\<close> is the table the declaration \<open>d\<close> leads to.
\<close>

definition mk_member :: "string \<times> nat \<times> shape \<Rightarrow> member" where
  "mk_member p = \<lparr>m_name = fst p, m_offset = fst (snd p), m_type = snd (snd p)\<rparr>"

definition members_of :: "decl \<Rightarrow> member list" where
  "members_of d = map mk_member (zip (extract_macro_names (va_args d)) (heads d))"

definition last_named :: "member list \<Rightarrow> string \<Rightarrow> member option" where
  "last_named ms nm = find (\<lambda>m. m_name m = nm) (rev ms)"

definition built :: "decl \<Rightarrow> type_info" where
  "built d =
     \<lparr>fields_vec = members_of d,
      m_named_fields = (\<lambda>nm. map_option Some (last_named (members_of d) nm)),
      m_is_init = 1\<rparr>"

text \<open>Every argument of the macro has its name.\<close>

definition wf_decl :: "decl \<Rightarrow> bool" where
  "wf_decl d = (length (heads d) \<le> length (extract_macro_names (va_args d)))"

text \<open>A \<^verbatim>\<open>static type_info\<close> is either untouched or the table its declaration leads to.\<close>

definition registry_ok :: "env \<Rightarrow> registry \<Rightarrow> bool" where
  "registry_ok E R = (\<forall>n. R n = static_ti \<or> R n = built (E n))"

subsection \<open>Reference notions for a round trip\<close>














lemma fields_vec_foldl_add: "fields_vec (foldl add ti ms) = fields_vec ti @ ms"
  by (induction ms arbitrary: ti) (simp_all add: add_def)

lemma m_is_init_foldl_add: "m_is_init (foldl add ti ms) = m_is_init ti"
  by (induction ms arbitrary: ti) (simp_all add: add_def)

lemma find_app: "find P (xs @ ys) = (case find P xs of Some x \<Rightarrow> Some x | None \<Rightarrow> find P ys)"
  by (induction xs) simp_all

lemma m_named_fields_foldl_add:
  "m_named_fields (foldl add ti ms) nm =
     (case last_named ms nm of Some m \<Rightarrow> Some (Some m) | None \<Rightarrow> m_named_fields ti nm)"
proof (induction ms arbitrary: ti)
  case Nil
  show ?case by (simp add: last_named_def)
next
  case (Cons m ms)
  have step: "m_named_fields (add ti m) nm =
      (if m_name m = nm then Some (Some m) else m_named_fields ti nm)"
    by (simp add: add_def)
  have "m_named_fields (foldl add ti (m # ms)) nm =
      (case last_named ms nm of Some m' \<Rightarrow> Some (Some m') | None \<Rightarrow> m_named_fields (add ti m) nm)"
    using Cons [of "add ti m"] by simp
  also have "\<dots> =
      (case last_named (m # ms) nm of Some m' \<Rightarrow> Some (Some m') | None \<Rightarrow> m_named_fields ti nm)"
    by (simp add: step last_named_def find_app split: option.splits)
  finally show ?case .
qed

lemma expand_foldl_add:
  "idx + length hs \<le> length names \<Longrightarrow>
   rpoco_type_info_expand ti names idx hs =
     Inr (foldl add ti (map mk_member (zip (drop idx names) hs)))"
proof (induction hs arbitrary: ti idx)
  case Nil
  show ?case by simp
next
  case (Cons h hs)
  obtain off H where h: "h = (off, H)" by (cases h)
  from Cons.prems have lt: "idx < length names" and le: "Suc idx + length hs \<le> length names"
    by simp_all
  from lt have dr: "drop idx names = names ! idx # drop (Suc idx) names"
    by (simp add: Cons_nth_drop_Suc)
  show ?case
    using Cons.IH [OF le] lt by (simp add: h dr mk_member_def)
qed

lemma rpoco_type_info_get_static:
  assumes "wf_decl d"
  shows "rpoco_type_info_get d static_ti = Inr (built d)"
proof -
  let ?ms = "members_of d"
  have "rpoco_type_info_expand static_ti (extract_macro_names (va_args d)) 0 (heads d) =
          Inr (foldl add static_ti ?ms)"
    using assms expand_foldl_add [of 0 "heads d" "extract_macro_names (va_args d)" static_ti]
    by (simp add: wf_decl_def members_of_def)
  moreover have "(foldl add static_ti ?ms)\<lparr>m_is_init := 1\<rparr> = built d"
    by (rule type_info.equality)
       (auto simp: built_def fields_vec_foldl_add m_named_fields_foldl_add static_ti_def
             split: option.splits)
  ultimately show ?thesis
    by (simp add: rpoco_type_info_get_def is_init_def init_def static_ti_def)
qed

lemma rpoco_type_info_get_built: "rpoco_type_info_get d (built d) = Inr (built d)"
  by (simp add: rpoco_type_info_get_def is_init_def built_def)

lemma rpoco_type_info_get_ok:
  "wf_decl (E n) \<Longrightarrow> registry_ok E R \<Longrightarrow> rpoco_type_info_get (E n) (R n) = Inr (built (E n))"
  unfolding registry_ok_def
  using rpoco_type_info_get_static rpoco_type_info_get_built by metis

lemma has_built: "has (built d) nm = (last_named (members_of d) nm \<noteq> None)"
  by (simp add: has_def built_def)


lemma ti_size_built: "ti_size (built d) = length (members_of d)"
  by (simp add: ti_size_def built_def)

lemma at_index_built:
  "i < length (members_of d) \<Longrightarrow> at_index (built d) i = Inr (members_of d ! i)"
  by (simp add: at_index_def built_def)

subsection \<open>Basic facts about the visitor and the dispatch\<close>

lemma v_consume_None [simp]: "v_consume vt out None a = ret (False, a)"
  by (simp add: v_consume_def)

lemma v_consume_Some:
  "v_consume vt out (Some u) a =
     (if kind u = vt \<and> (vt = vt_object \<or> vt = vt_array) then
        pre [EvConsume vt] (seq (consume_children out (children u) a) (\<lambda>a'. ret (True, a')))
      else Inl Mismatch)"
  by (simp add: v_consume_def)

lemma leaf_write [simp]:
  "v_visit_null None = Inr ([EvNull], ())"
  "v_visit_bool None b = Inr ([EvBool b], b)"
  "v_visit_int None i = Inr ([EvInt i], i)"
  "v_visit_double None q = Inr ([EvDouble q], q)"
  "v_visit_string None s = Inr ([EvStr s], s)"
  "v_visit_buf sz None s = Inr ([EvBuf s], s)"
  by (simp_all add: v_visit_null_def v_visit_bool_def v_visit_int_def v_visit_double_def
      v_visit_string_def v_visit_buf_def)

lemma produce_brackets [simp]:
  "seq (v_produce_start vt) f = pre [EvStart vt] (f ())"
  "seq (v_produce_end vt) f = pre [EvEnd vt] (f ())"
  by (simp_all add: v_produce_start_def v_produce_end_def)

lemma seq_Inr_iff:
  "seq m f = Inr (evs, b) \<longleftrightarrow>
     (\<exists>ev1 a ev2. m = Inr (ev1, a) \<and> f a = Inr (ev2, b) \<and> evs = ev1 @ ev2)"
  by (cases m) (auto simp: seq_def pre_def split: sum.splits)

lemma pre_Inr_iff: "pre ev r = Inr (evs, b) \<longleftrightarrow> (\<exists>ev2. r = Inr (ev2, b) \<and> evs = ev @ ev2)"
  by (cases r) (auto simp: pre_def)

lemma ret_Inr_iff [simp]: "ret a = Inr (evs, b) \<longleftrightarrow> evs = [] \<and> b = a"
  by (auto simp: ret_def)

lemma seq_assoc: "seq (seq m f) g = seq m (\<lambda>a. seq (f a) g)"
  by (cases m) (auto simp: seq_def pre_def split: sum.splits)

lemma seq_ret_right [simp]: "seq m ret = m"
  by (cases m) (auto simp: seq_def pre_def ret_def)

lemma outcome_simps [simp]:
  "outcome (Inl e) = Inl e"
  "outcome (Inr (evs, a)) = Inr a"
  "outcome (ret a) = Inr a"
  "outcome (pre evs r) = outcome r"
  by (auto simp: outcome_def ret_def pre_def split: sum.splits)


lemma consume_children_const:
  assumes "\<forall>kd \<in> set kvs. out (fst kd) (Some (snd kd)) a = Inr (g (snd kd), a)"
  shows "consume_children out kvs a = Inr (concat (map (\<lambda>kd. g (snd kd)) kvs), a)"
  using assms by (induction kvs) (simp_all add: ret_def)

text \<open>The discard sink on a reading visitor: it never fails and makes exactly the calls of \<open>drain\<close>.\<close>

lemma visit_nil_read: "visit E R TNil (Some u) VNil = Inr (drain u, VNil)"
proof (induction u)
  case (DArr ds)
  have "consume_children (\<lambda>propname inp' nt. visit E R TNil inp' VNil) (map (Pair []) ds) VNil
      = Inr (concat (map (\<lambda>kd. drain (snd kd)) (map (Pair ([] :: string)) ds)), VNil)"
    by (rule consume_children_const) (simp add: DArr)
  then show ?case
    by (simp add: visit.simps peek_def v_consume_Some comp_def)
next
  case (DObj kvs)
  have "consume_children (\<lambda>propname inp' nt. visit E R TNil inp' VNil) kvs VNil
      = Inr (concat (map (\<lambda>kd. drain (snd kd)) kvs), VNil)"
    by (rule consume_children_const) (auto intro: DObj simp: snds.simps)
  then show ?case
    by (simp add: visit.simps peek_def v_consume_Some)
qed (simp_all add: visit.simps peek_def v_visit_null_def v_visit_bool_def v_visit_double_def
      v_visit_string_def)

lemma visit_nil_write: "visit E R TNil None VNil = Inr ([], VNil)"
  by (simp add: visit.simps peek_def ret_def)

text \<open>Collections and records, by the direction of the visitor.\<close>

lemma consume_children_append:
  "consume_children (\<lambda>x inp' vp'. seq (g inp') (\<lambda>y. ret (vp' @ [y]))) kvs vp
     = seq (collect_res (map (\<lambda>kd. g (Some (snd kd))) kvs)) (\<lambda>ys. ret (vp @ ys))"
proof (induction kvs arbitrary: vp)
  case Nil
  show ?case by simp
next
  case (Cons kd kvs)
  show ?case by (simp add: Cons seq_assoc)
qed

lemma for_each_collect:
  "for_each (\<lambda>x. seq (body x) (\<lambda>_. ret ())) xs = seq (collect_res (map body xs)) (\<lambda>_. ret ())"
  by (induction xs) (simp_all add: seq_assoc)

lemma for_each_map: "for_each body (map f xs) = for_each (\<lambda>x. body (f x)) xs"
  by (induction xs) simp_all

lemma collect_res_length: "collect_res rs = Inr (evs, ys) \<Longrightarrow> length ys = length rs"
proof (induction rs arbitrary: evs ys)
  case Nil
  then show ?case by simp
next
  case (Cons r rs)
  then show ?case by (auto simp: seq_Inr_iff)
qed

lemma visit_vector_read:
  "visit E R (TVector F) (Some (DArr ds)) (VVec vp)
     = pre [EvConsume vt_array]
         (seq (collect_res (map (\<lambda>d. visit E R F (Some d) (new_val E F)) ds))
              (\<lambda>ys. ret (VVec (vp @ ys))))"
  by (simp add: visit.simps(4) v_consume_Some consume_children_append seq_assoc comp_def)

lemma visit_vector_write:
  "visit E R (TVector F) None (VVec vp)
     = pre [EvStart vt_array]
         (seq (collect_res (map (\<lambda>f. visit E R F None f) vp))
              (\<lambda>_. Inr ([EvEnd vt_array], VVec vp)))"
  by (simp add: visit.simps(4) for_each_collect seq_assoc)


lemma events_of_simps [simp]:
  "events_of (Inl e) = []" "events_of (Inr (evs, a)) = evs"
  by (simp_all add: events_of_def)

lemma collect_res_events:
  "collect_res rs = Inr (evs, ys) \<Longrightarrow> evs = concat (map events_of rs)"
proof (induction rs arbitrary: evs ys)
  case Nil
  then show ?case by simp
next
  case (Cons r rs)
  then show ?case by (auto simp: seq_Inr_iff)
qed

lemma collect_res_all_ok:
  "collect_res rs = Inr (evs, ys) \<Longrightarrow> r \<in> set rs \<Longrightarrow> \<exists>ev y. r = Inr (ev, y)"
proof (induction rs arbitrary: evs ys)
  case Nil
  then show ?case by simp
next
  case (Cons r' rs)
  then show ?case by (auto simp: seq_Inr_iff)
qed

lemma for_each_index:
  "for_each (\<lambda>i. case at_index fp i of Inl e \<Rightarrow> Inl e | Inr m \<Rightarrow> B m) [0..<ti_size fp]
     = for_each B (fields_vec fp)"
proof -
  have "for_each (\<lambda>i. case at_index fp i of Inl e \<Rightarrow> Inl e | Inr m \<Rightarrow> B m) [0..<ti_size fp]
      = for_each (\<lambda>i. B (fields_vec fp ! i)) [0..<ti_size fp]"
    by (rule for_each_cong) (simp_all add: at_index_def ti_size_def)
  also have "\<dots> = for_each B (map (nth (fields_vec fp)) [0..<length (fields_vec fp)])"
    by (simp add: for_each_map ti_size_def)
  finally show ?thesis by (simp add: map_nth)
qed

lemma visit_record_read:
  assumes "rpoco_type_info_get (E n) (R n) = Inr fp"
  shows "visit E R (TRecord n) (Some (DObj kvs)) (VRec ms)
     = pre [EvConsume vt_object]
         (seq (consume_children (member_cb E R fp) kvs ms) (\<lambda>ms'. ret (VRec ms')))"
proof -
  have cb: "(\<lambda>nm inp' f.
       if \<not> has fp nm then seq (visit E R TNil inp' VNil) (\<lambda>nt. ret f)
       else (case fst (at_name fp nm) of
               None \<Rightarrow> Inl NullDeref
             | Some m \<Rightarrow> field_visit (visit E R) m inp' f)) = member_cb E R fp"
    by (intro ext) (simp add: member_cb_def)
  show ?thesis
    by (simp add: visit.simps(1) assms v_consume_Some cb seq_assoc)
qed

lemma visit_record_write:
  assumes "rpoco_type_info_get (E n) (R n) = Inr fp"
  shows "visit E R (TRecord n) None (VRec ms)
     = pre [EvStart vt_object]
         (seq (collect_res
                 (map (\<lambda>m. pre [EvStr (m_name m)] (field_visit (visit E R) m None ms))
                      (fields_vec fp)))
              (\<lambda>_. Inr ([EvEnd vt_object], VRec ms)))"
proof -
  have "for_each
          (\<lambda>i. case at_index fp i of
                  Inl e \<Rightarrow> Inl e
                | Inr m \<Rightarrow> seq (v_visit_string None (m_name m)) (\<lambda>_.
                          seq (field_visit (visit E R) m None ms) (\<lambda>_. ret ())))
          [0..<ti_size fp]
      = seq (collect_res
               (map (\<lambda>m. pre [EvStr (m_name m)] (field_visit (visit E R) m None ms)) (fields_vec fp)))
            (\<lambda>_. ret ())"
    by (simp add: for_each_index for_each_collect [symmetric])
  then show ?thesis
    by (simp add: visit.simps(1) assms seq_assoc)
qed


lemma members_of_nth:
  assumes "wf_decl d" "i < length (heads d)"
  shows "members_of d ! i =
     \<lparr>m_name = extract_macro_names (va_args d) ! i, m_offset = fst (heads d ! i),
      m_type = snd (heads d ! i)\<rparr>"
  using assms by (simp add: members_of_def wf_decl_def mk_member_def)

lemma length_members_of: "wf_decl d \<Longrightarrow> length (members_of d) = length (heads d)"
  by (simp add: members_of_def wf_decl_def)

lemma field_visit_frame:
  assumes "field_visit vis m inp ms = Inr (evs, ms')"
  shows "m_offset m < length ms \<and> length ms' = length ms
       \<and> vis (m_type m) inp (ms ! m_offset m) = Inr (evs, ms' ! m_offset m)
       \<and> (\<forall>j. j \<noteq> m_offset m \<longrightarrow> ms' ! j = ms ! j)"
  using assms by (auto simp: field_visit_def seq_Inr_iff split: if_splits)

lemma last_named_Some:
  assumes "last_named ms nm = Some m"
  shows "\<exists>i < length ms. ms ! i = m \<and> m_name m = nm
           \<and> (\<forall>j. i < j \<and> j < length ms \<longrightarrow> m_name (ms ! j) \<noteq> nm)"
proof -
  from assms obtain k where k: "k < length (rev ms)" "rev ms ! k = m" "m_name m = nm"
      "\<forall>j < k. m_name (rev ms ! j) \<noteq> nm"
    by (auto simp: last_named_def find_Some_iff)
  let ?i = "length ms - Suc k"
  have i: "?i < length ms" using k(1) by simp
  have "ms ! ?i = m" using k(1,2) by (simp add: rev_nth)
  moreover have "m_name (ms ! j) \<noteq> nm" if "?i < j" "j < length ms" for j
  proof -
    have "length ms - Suc j < k" using that k(1) by simp
    then have "m_name (rev ms ! (length ms - Suc j)) \<noteq> nm" using k(4) by blast
    moreover have "rev ms ! (length ms - Suc j) = ms ! j"
      using that by (simp add: rev_nth)
    ultimately show ?thesis by simp
  qed
  ultimately show ?thesis using i k(3) by blast
qed


lemma collect_res_values:
  "collect_res rs = Inr (evs, ys) \<Longrightarrow> i < length rs \<Longrightarrow> outcome (rs ! i) = Inr (ys ! i)"
proof (induction rs arbitrary: evs ys i)
  case Nil
  then show ?case by simp
next
  case (Cons r rs)
  then show ?case by (cases i) (auto simp: seq_Inr_iff)
qed

lemma consume_children_Nil_fun [simp]: "consume_children out [] = ret"
  by (rule ext) simp

subsection \<open>Producing and consuming back\<close>









lemma visit_write_target: "visit E R F None t = Inr (evs, t') \<Longrightarrow> t' = t"
proof (induction F arbitrary: t evs t')
  case (TPtr k F)
  then show ?case
    by (auto simp: visit.simps(5) peek_def seq_Inr_iff v_visit_null_def
             split: val.splits option.splits)
qed (auto simp: visit.simps peek_def seq_Inr_iff pre_Inr_iff split: val.splits sum.splits if_splits)






lemma kind_not_none [simp]: "kind u \<noteq> vt_none"
  by (cases u) simp_all









subsection \<open>The classes of the demonstration program\<close>

text \<open>\<^verbatim>\<open>Ser1\<close>, \<^verbatim>\<open>Ser2\<close>, \<^verbatim>\<open>Ser2P\<close> and \<^verbatim>\<open>SerVI\<close> of \<^verbatim>\<open>src/test.cpp\<close>.\<close>

definition test_env :: env where
  "test_env n =
     (if n = ''Ser1'' then
        \<lparr>va_args = ''x'', heads = [(0, TInt)], ctor = VRec [VInt 0]\<rparr>
      else if n = ''Ser2'' then
        \<lparr>va_args = ''a,sub'', heads = [(0, TInt), (1, TRecord ''Ser1'')],
         ctor = VRec [VInt 0, VRec [VInt 0]]\<rparr>
      else if n = ''Ser2P'' then
        \<lparr>va_args = ''a,sub'', heads = [(0, TInt), (1, TPtr RawPtr (TRecord ''Ser1''))],
         ctor = VRec [VInt 0, VPtr None]\<rparr>
      else
        \<lparr>va_args = ''ints'', heads = [(0, TVector TInt)], ctor = VRec [VVec []]\<rparr>)"

definition fresh_registry :: registry where
  "fresh_registry n = static_ti"

lemmas registry_eval =
  rpoco_type_info_get_def static_ti_def is_init_def init_def extract_macro_names_def
  is_sep_def isspace_def add_def has_def at_name_def at_index_def ti_size_def

lemmas visit_eval =
  visit.simps v_consume_def field_visit_def peek_def v_visit_null_def v_visit_bool_def
  v_visit_int_def v_visit_double_def v_visit_string_def v_visit_buf_def
  v_produce_start_def v_produce_end_def registry_eval

text \<open>A class that names two members alike, as \<^verbatim>\<open>type_info::add\<close> accepts it.\<close>

definition dup_env :: env where
  "dup_env n = \<lparr>va_args = ''a,a'', heads = [(0, TInt), (1, TInt)], ctor = VRec [VInt 0, VInt 0]\<rparr>"


lemma registry_ok_fresh: "registry_ok E fresh_registry"
  by (simp add: registry_ok_def fresh_registry_def)

lemma wf_test_env: "wf_decl (test_env n)"
  by (simp add: wf_decl_def test_env_def registry_eval)

lemma wf_dup_env: "wf_decl (dup_env n)"
  by (simp add: wf_decl_def dup_env_def registry_eval)



subsection \<open>Claims about the registry\<close>

text \<open>
  C9. For every \<^verbatim>\<open>type_info\<close> \<open>t\<close> and every name \<open>n\<close> with \<^verbatim>\<open>t.has(n)\<close> false, the
  name-indexed lookup \<^verbatim>\<open>t[n]\<close> returns a null member pointer, and afterwards
  \<^verbatim>\<open>t.has(n)\<close> is true: the lookup inserts an entry (holding the null pointer) into the
  table and leaves the rest of it as it was.
\<close>

theorem at_name_absent_inserts_null:
  assumes "\<not> has t n"
  shows "fst (at_name t n) = None
       \<and> has (snd (at_name t n)) n
       \<and> m_named_fields (snd (at_name t n)) = (m_named_fields t)(n \<mapsto> None)
       \<and> fields_vec (snd (at_name t n)) = fields_vec t
       \<and> snd (at_name t n) \<noteq> t"
proof -
  from assms have none: "m_named_fields t n = None"
    by (simp add: has_def)
  then have "m_named_fields (snd (at_name t n)) n \<noteq> m_named_fields t n"
    by (simp add: at_name_def)
  then have "snd (at_name t n) \<noteq> t"
    by auto
  with none show ?thesis
    by (simp add: at_name_def has_def)
qed

theorem at_name_absent_inserts_null_witness:
  "rpoco_type_info_get (test_env ''Ser1'') static_ti = Inr (built (test_env ''Ser1''))
   \<and> \<not> has (built (test_env ''Ser1'')) ''y''
   \<and> fst (at_name (built (test_env ''Ser1'')) ''y'') = None
   \<and> has (snd (at_name (built (test_env ''Ser1'')) ''y'')) ''y''"
proof -
  have wf: "wf_decl (test_env ''Ser1'')"
    by (simp add: wf_decl_def test_env_def registry_eval)
  have absent: "\<not> has (built (test_env ''Ser1'')) ''y''"
    by (simp add: built_def last_named_def members_of_def mk_member_def test_env_def registry_eval)
  from rpoco_type_info_get_static [OF wf] absent
    at_name_absent_inserts_null [OF absent]
  show ?thesis by simp
qed

subsection \<open>Claims about the dispatch\<close>

text \<open>
  C6. The discard sink, for every unit of input: it peeks the kind; for a scalar (null,
  number, bool, string) it makes exactly one leaf visit, into a throwaway value; for an
  array or an object it begins a consume of that kind and runs the sink once per
  discovered child, so that nested unknown structures are drained completely. It never
  fails, and it changes nothing but the visitor: its target is the empty
  \<^verbatim>\<open>niltarget\<close>, returned as it was. The calls it makes are exactly those of \<open>drain\<close>,
  spelled out here for each kind of unit.
\<close>

theorem discard_sink_drains:
  "visit E R TNil (Some u) VNil = Inr (drain u, VNil)
   \<and> visit E R TNil (Some DNull) VNil = Inr ([EvNull], VNil)
   \<and> visit E R TNil (Some (DBool b)) VNil = Inr ([EvBool b], VNil)
   \<and> visit E R TNil (Some (DNum q)) VNil = Inr ([EvDouble q], VNil)
   \<and> visit E R TNil (Some (DStr s)) VNil = Inr ([EvStr s], VNil)
   \<and> visit E R TNil (Some (DArr ds)) VNil
       = Inr (EvConsume vt_array # concat (map (\<lambda>d. fst (projr (visit E R TNil (Some d) VNil))) ds), VNil)
   \<and> visit E R TNil (Some (DObj kvs)) VNil
       = Inr (EvConsume vt_object
               # concat (map (\<lambda>kd. fst (projr (visit E R TNil (Some (snd kd)) VNil))) kvs), VNil)"
  by (simp add: visit_nil_read)

text \<open>
  C5. For an owning reference (raw pointer, \<^verbatim>\<open>shared_ptr\<close> or \<^verbatim>\<open>unique_ptr\<close>; \<open>k\<close> is any of
  the three): consuming a null unit into an unset reference leaves it unset; consuming a
  unit that is not null into an unset reference allocates one new instance
  (\<open>new_val E F\<close>), populates it by the dispatch for \<open>F\<close> and leaves the reference set to
  it; consuming into a set reference recurses into the held instance; producing an unset
  reference emits null, and producing a set reference recurses into the held instance.
\<close>

theorem owning_reference_semantics:
  "visit E R (TPtr k F) (Some DNull) (VPtr None) = Inr ([EvNull], VPtr None)
   \<and> (u \<noteq> DNull \<longrightarrow>
        visit E R (TPtr k F) (Some u) (VPtr None)
          = seq (visit E R F (Some u) (new_val E F)) (\<lambda>x'. ret (VPtr (Some x'))))
   \<and> visit E R (TPtr k F) (Some u) (VPtr (Some x))
        = seq (visit E R F (Some u) x) (\<lambda>x'. ret (VPtr (Some x')))
   \<and> visit E R (TPtr k F) None (VPtr None) = Inr ([EvNull], VPtr None)
   \<and> visit E R (TPtr k F) None (VPtr (Some x))
        = seq (visit E R F None x) (\<lambda>x'. ret (VPtr (Some x')))"
  by (cases u) (simp_all add: visit.simps(5) peek_def v_visit_null_def)

theorem owning_reference_semantics_witness:
  "DObj [(''x'', DNum 7)] \<noteq> DNull
   \<and> visit test_env fresh_registry (TPtr RawPtr (TRecord ''Ser1'')) (Some (DObj [(''x'', DNum 7)]))
        (VPtr None)
      = Inr ([EvConsume vt_object, EvInt 7], VPtr (Some (VRec [VInt 7])))
   \<and> visit test_env fresh_registry (TPtr SharedPtr TInt) (Some DNull) (VPtr None)
      = Inr ([EvNull], VPtr None)"
proof -
  have inner: "visit test_env fresh_registry (TRecord ''Ser1'') (Some (DObj [(''x'', DNum 7)]))
      (VRec [VInt 0]) = Inr ([EvConsume vt_object, EvInt 7], VRec [VInt 7])"
    by (simp add: visit.simps test_env_def fresh_registry_def registry_eval v_consume_def
        field_visit_def v_visit_int_def)
  have new: "ctor (test_env ''Ser1'') = VRec [VInt 0]"
    by (simp add: test_env_def)
  from owning_reference_semantics
    [of test_env fresh_registry RawPtr "TRecord ''Ser1''" "DObj [(''x'', DNum 7)]" undefined]
    owning_reference_semantics [of test_env fresh_registry SharedPtr TInt DNull undefined]
  show ?thesis by (simp add: inner new)
qed

text \<open>
  C8. For a homogeneous ordered collection (\<^verbatim>\<open>std::vector<F>\<close>): consuming an array
  appends exactly one new element per discovered item to the end of the collection
  and leaves the elements already there as they are; each new element is a
  value-initialised \<open>F\<close> populated by the dispatch for \<open>F\<close> at that item, and the call
  fails exactly when one of these fails. Producing brackets an array and visits the
  elements in container order.
\<close>

theorem vector_appends_and_iterates:
  "visit E R (TVector F) (Some (DArr ds)) (VVec vp)
     = pre [EvConsume vt_array]
         (seq (collect_res (map (\<lambda>d. visit E R F (Some d) (new_val E F)) ds))
              (\<lambda>ys. ret (VVec (vp @ ys))))
   \<and> (\<forall>evs t'. visit E R (TVector F) (Some (DArr ds)) (VVec vp) = Inr (evs, t') \<longrightarrow>
         (\<exists>ys. t' = VVec (vp @ ys) \<and> length ys = length ds
            \<and> (\<forall>i < length ds.
                  outcome (visit E R F (Some (ds ! i)) (new_val E F)) = Inr (ys ! i))))
   \<and> visit E R (TVector F) None (VVec vp)
     = pre [EvStart vt_array]
         (seq (collect_res (map (\<lambda>f. visit E R F None f) vp))
              (\<lambda>_. Inr ([EvEnd vt_array], VVec vp)))"
proof (intro conjI allI impI)
  show "visit E R (TVector F) (Some (DArr ds)) (VVec vp)
     = pre [EvConsume vt_array]
         (seq (collect_res (map (\<lambda>d. visit E R F (Some d) (new_val E F)) ds))
              (\<lambda>ys. ret (VVec (vp @ ys))))"
    by (rule visit_vector_read)
next
  fix evs t'
  assume "visit E R (TVector F) (Some (DArr ds)) (VVec vp) = Inr (evs, t')"
  then obtain ev ys where c: "collect_res (map (\<lambda>d. visit E R F (Some d) (new_val E F)) ds) = Inr (ev, ys)"
      and t': "t' = VVec (vp @ ys)"
    by (auto simp: visit_vector_read pre_Inr_iff seq_Inr_iff)
  have "length ys = length ds"
    using collect_res_length [OF c] by simp
  moreover have "outcome (visit E R F (Some (ds ! i)) (new_val E F)) = Inr (ys ! i)" if "i < length ds" for i
    using collect_res_values [OF c, of i] that by simp
  ultimately show "\<exists>ys. t' = VVec (vp @ ys) \<and> length ys = length ds
      \<and> (\<forall>i < length ds. outcome (visit E R F (Some (ds ! i)) (new_val E F)) = Inr (ys ! i))"
    using t' by blast
next
  show "visit E R (TVector F) None (VVec vp)
     = pre [EvStart vt_array]
         (seq (collect_res (map (\<lambda>f. visit E R F None f) vp))
              (\<lambda>_. Inr ([EvEnd vt_array], VVec vp)))"
    by (rule visit_vector_write)
qed

theorem vector_appends_and_iterates_witness:
  "visit test_env fresh_registry (TVector TInt) (Some (DArr [DNum 23, DNum 456])) (VVec [VInt 1])
     = Inr ([EvConsume vt_array, EvInt 23, EvInt 456], VVec [VInt 1, VInt 23, VInt 456])
   \<and> visit test_env fresh_registry (TVector TInt) None (VVec [VInt 1, VInt 23, VInt 456])
     = Inr ([EvStart vt_array, EvInt 1, EvInt 23, EvInt 456, EvEnd vt_array],
            VVec [VInt 1, VInt 23, VInt 456])"
  using vector_appends_and_iterates
    [of test_env fresh_registry TInt "[DNum 23, DNum 456]" "[VInt 1]"]
    vector_appends_and_iterates
    [of test_env fresh_registry TInt "[]" "[VInt 1, VInt 23, VInt 456]"]
  by (simp add: visit.simps(6) v_visit_int_def)

text \<open>
  C3. For a record whose declaration is well formed, producing emits the object's
  opening bracket, then for each declared member, in the order of the \<^verbatim>\<open>RPOCO\<close>
  arguments, the member's name followed by what visiting the member's value emits, then
  the closing bracket: exactly one child per declared member (\<open>N\<close> of them for \<open>N\<close>
  arguments), whatever the order of the name-indexed map. The \<open>i\<close>-th child is the \<open>i\<close>-th
  name of the macro text with the \<open>i\<close>-th argument.
\<close>

theorem produce_in_declaration_order:
  assumes "wf_decl (E n)" and "registry_ok E R"
  shows "visit E R (TRecord n) None (VRec ms)
     = pre [EvStart vt_object]
         (seq (collect_res
                 (map (\<lambda>m. pre [EvStr (m_name m)] (field_visit (visit E R) m None ms))
                      (members_of (E n))))
              (\<lambda>_. Inr ([EvEnd vt_object], VRec ms)))
   \<and> (\<forall>evs t'. visit E R (TRecord n) None (VRec ms) = Inr (evs, t') \<longrightarrow>
         t' = VRec ms
         \<and> evs = [EvStart vt_object]
               @ concat (map (\<lambda>m. EvStr (m_name m)
                                 # events_of (visit E R (m_type m) None (ms ! m_offset m)))
                             (members_of (E n)))
               @ [EvEnd vt_object])
   \<and> length (members_of (E n)) = length (heads (E n))
   \<and> (\<forall>i < length (heads (E n)).
         members_of (E n) ! i =
           \<lparr>m_name = extract_macro_names (va_args (E n)) ! i,
            m_offset = fst (heads (E n) ! i), m_type = snd (heads (E n) ! i)\<rparr>)"
proof -
  let ?child = "\<lambda>m. pre [EvStr (m_name m)] (field_visit (visit E R) m None ms)"
  have get: "rpoco_type_info_get (E n) (R n) = Inr (built (E n))"
    using assms by (rule rpoco_type_info_get_ok)
  have eq: "visit E R (TRecord n) None (VRec ms)
     = pre [EvStart vt_object]
         (seq (collect_res (map ?child (members_of (E n))))
              (\<lambda>_. Inr ([EvEnd vt_object], VRec ms)))"
    using visit_record_write [where E = E and R = R and n = n, OF get, of ms] by (simp add: built_def)
  have ev: "t' = VRec ms \<and> evs = [EvStart vt_object]
               @ concat (map (\<lambda>m. EvStr (m_name m)
                                 # events_of (visit E R (m_type m) None (ms ! m_offset m)))
                             (members_of (E n)))
               @ [EvEnd vt_object]"
    if run: "visit E R (TRecord n) None (VRec ms) = Inr (evs, t')" for evs t'
  proof -
    from run obtain ev1 ys where c: "collect_res (map ?child (members_of (E n))) = Inr (ev1, ys)"
        and evs: "evs = [EvStart vt_object] @ ev1 @ [EvEnd vt_object]" and t': "t' = VRec ms"
      by (auto simp: eq pre_Inr_iff seq_Inr_iff)
    have "events_of (?child m)
        = EvStr (m_name m) # events_of (visit E R (m_type m) None (ms ! m_offset m))"
      if "m \<in> set (members_of (E n))" for m
    proof -
      from collect_res_all_ok [OF c, of "?child m"] that
      obtain ev y where "?child m = Inr (ev, y)" by auto
      then obtain ev2 where fv: "field_visit (visit E R) m None ms = Inr (ev2, y)"
          and "ev = EvStr (m_name m) # ev2"
        by (auto simp: pre_Inr_iff)
      from field_visit_frame [OF fv] show ?thesis
        by (simp add: fv)
    qed
    then have "map (\<lambda>m. events_of (?child m)) (members_of (E n))
        = map (\<lambda>m. EvStr (m_name m) # events_of (visit E R (m_type m) None (ms ! m_offset m)))
              (members_of (E n))"
      by simp
    with collect_res_events [OF c] evs t' show ?thesis
      by (simp add: comp_def)
  qed
  show ?thesis
  proof (intro conjI allI impI)
    show "visit E R (TRecord n) None (VRec ms)
       = pre [EvStart vt_object]
           (seq (collect_res (map ?child (members_of (E n))))
                (\<lambda>_. Inr ([EvEnd vt_object], VRec ms)))"
      by (rule eq)
  next
    fix evs t'
    assume run: "visit E R (TRecord n) None (VRec ms) = Inr (evs, t')"
    show "t' = VRec ms" using ev [OF run] by (rule conjunct1)
    show "evs = [EvStart vt_object]
               @ concat (map (\<lambda>m. EvStr (m_name m)
                                 # events_of (visit E R (m_type m) None (ms ! m_offset m)))
                             (members_of (E n)))
               @ [EvEnd vt_object]"
      using ev [OF run] by (rule conjunct2)
  next
    show "length (members_of (E n)) = length (heads (E n))"
      by (rule length_members_of [OF assms(1)])
  next
    fix i
    assume "i < length (heads (E n))"
    then show "members_of (E n) ! i =
           \<lparr>m_name = extract_macro_names (va_args (E n)) ! i,
            m_offset = fst (heads (E n) ! i), m_type = snd (heads (E n) ! i)\<rparr>"
      by (rule members_of_nth [OF assms(1)])
  qed
qed

theorem produce_in_declaration_order_witness:
  "wf_decl (test_env ''Ser2'') \<and> registry_ok test_env fresh_registry
   \<and> visit test_env fresh_registry (TRecord ''Ser2'') None (VRec [VInt 2, VRec [VInt 1]])
     = Inr ([EvStart vt_object, EvStr ''a'', EvInt 2,
             EvStr ''sub'', EvStart vt_object, EvStr ''x'', EvInt 1, EvEnd vt_object,
             EvEnd vt_object],
            VRec [VInt 2, VRec [VInt 1]])"
proof -
  have sub: "visit test_env fresh_registry (TRecord ''Ser1'') None (VRec [VInt 1])
      = Inr ([EvStart vt_object, EvStr ''x'', EvInt 1, EvEnd vt_object], VRec [VInt 1])"
    by code_simp
  have ms: "members_of (test_env ''Ser2'')
      = [\<lparr>m_name = ''a'', m_offset = 0, m_type = TInt\<rparr>,
         \<lparr>m_name = ''sub'', m_offset = 1, m_type = TRecord ''Ser1''\<rparr>]"
    by code_simp
  from produce_in_declaration_order [where E = test_env and n = "''Ser2''"
      and R = fresh_registry and ms = "[VInt 2, VRec [VInt 1]]", OF wf_test_env registry_ok_fresh, THEN conjunct1]
  have "visit test_env fresh_registry (TRecord ''Ser2'') None (VRec [VInt 2, VRec [VInt 1]])
     = Inr ([EvStart vt_object, EvStr ''a'', EvInt 2,
             EvStr ''sub'', EvStart vt_object, EvStr ''x'', EvInt 1, EvEnd vt_object,
             EvEnd vt_object],
            VRec [VInt 2, VRec [VInt 1]])"
    by (simp add: ms field_visit_def sub visit.simps(6))
  with wf_test_env registry_ok_fresh show ?thesis by simp
qed

text \<open>
  C7. In the registry built from a well-formed declaration, the \<open>i\<close>-th descriptor carries
  the \<open>i\<close>-th declared name with the offset and static type of the \<open>i\<close>-th argument.
  Visiting a descriptor against an object visits exactly the member at that offset with
  the dispatch of the member's type: when the visit succeeds, that member holds the
  result and every other member, and the number of members, is as before. Once built,
  the table is not rebuilt by \<^verbatim>\<open>rpoco_type_info_get\<close> or \<^verbatim>\<open>init\<close>, a lookup of a name it has
  leaves it unchanged, and no lookup changes the sequence of descriptors.
\<close>

theorem field_descriptor_accessor:
  assumes "wf_decl d" and "i < length (heads d)"
    and "rpoco_type_info_get d static_ti = Inr fp"
  shows "at_index fp i =
           Inr \<lparr>m_name = extract_macro_names (va_args d) ! i,
                m_offset = fst (heads d ! i), m_type = snd (heads d ! i)\<rparr>
   \<and> (\<forall>m E R inp ms evs ms'.
         at_index fp i = Inr m \<longrightarrow> field_visit (visit E R) m inp ms = Inr (evs, ms') \<longrightarrow>
           m_offset m < length ms \<and> length ms' = length ms
           \<and> visit E R (m_type m) inp (ms ! m_offset m) = Inr (evs, ms' ! m_offset m)
           \<and> (\<forall>j. j \<noteq> m_offset m \<longrightarrow> ms' ! j = ms ! j))
   \<and> rpoco_type_info_get d fp = Inr fp
   \<and> (\<forall>initfun. init fp initfun = Inr fp)
   \<and> (\<forall>nm. has fp nm \<longrightarrow> snd (at_name fp nm) = fp)
   \<and> (\<forall>nm. fields_vec (snd (at_name fp nm)) = fields_vec fp)"
proof -
  from assms(1,3) have fp: "fp = built d"
    by (simp add: rpoco_type_info_get_static)
  have idx: "at_index fp i =
      Inr \<lparr>m_name = extract_macro_names (va_args d) ! i,
           m_offset = fst (heads d ! i), m_type = snd (heads d ! i)\<rparr>"
    using assms(1,2) by (simp add: fp at_index_built length_members_of members_of_nth)
  have again: "rpoco_type_info_get d fp = Inr fp"
    by (simp add: fp rpoco_type_info_get_built)
  have init: "init fp initfun = Inr fp" for initfun
    by (simp add: fp init_def built_def)
  have keep: "snd (at_name fp nm) = fp" if "has fp nm" for nm
    using that by (auto simp: has_def at_name_def split: option.splits)
  have vec: "fields_vec (snd (at_name fp nm)) = fields_vec fp" for nm
    by (simp add: at_name_def split: option.splits)
  show ?thesis
    using idx again init keep vec field_visit_frame by (intro conjI allI impI) blast+
qed

theorem field_descriptor_accessor_witness:
  "wf_decl (test_env ''Ser2P'') \<and> (1::nat) < length (heads (test_env ''Ser2P''))
   \<and> rpoco_type_info_get (test_env ''Ser2P'') static_ti = Inr (built (test_env ''Ser2P''))
   \<and> at_index (built (test_env ''Ser2P'')) 1 =
         Inr \<lparr>m_name = ''sub'', m_offset = 1, m_type = TPtr RawPtr (TRecord ''Ser1'')\<rparr>
   \<and> field_visit (visit test_env fresh_registry)
         \<lparr>m_name = ''sub'', m_offset = 1, m_type = TPtr RawPtr (TRecord ''Ser1'')\<rparr>
         (Some (DObj [(''x'', DNum 7)])) [VInt 3, VPtr None]
       = Inr ([EvConsume vt_object, EvInt 7], [VInt 3, VPtr (Some (VRec [VInt 7]))])"
proof -
  have len: "(1::nat) < length (heads (test_env ''Ser2P''))"
    by (simp add: test_env_def)
  have get: "rpoco_type_info_get (test_env ''Ser2P'') static_ti = Inr (built (test_env ''Ser2P''))"
    by (rule rpoco_type_info_get_static [OF wf_test_env])
  have names: "extract_macro_names (va_args (test_env ''Ser2P'')) ! Suc 0 = ''sub''"
    by code_simp
  have hd: "heads (test_env ''Ser2P'') ! Suc 0 = (Suc 0, TPtr RawPtr (TRecord ''Ser1''))"
    by (simp add: test_env_def)
  have run: "field_visit (visit test_env fresh_registry)
         \<lparr>m_name = ''sub'', m_offset = 1, m_type = TPtr RawPtr (TRecord ''Ser1'')\<rparr>
         (Some (DObj [(''x'', DNum 7)])) [VInt 3, VPtr None]
       = Inr ([EvConsume vt_object, EvInt 7], [VInt 3, VPtr (Some (VRec [VInt 7]))])"
    by code_simp
  from field_descriptor_accessor [OF wf_test_env len get, THEN conjunct1]
  have "at_index (built (test_env ''Ser2P'')) 1 =
         Inr \<lparr>m_name = ''sub'', m_offset = 1, m_type = TPtr RawPtr (TRecord ''Ser1'')\<rparr>"
    by (simp add: names hd)
  with wf_test_env len get run show ?thesis by simp
qed

text \<open>
  C10. When a declaration names two members alike, building the registry does not fail:
  the ordered list holds every declared descriptor (so \<^verbatim>\<open>size\<close> counts both and producing
  emits the shared name once per descriptor, in declaration order), while the
  name-indexed lookup, and with it consuming a child of that name, resolves the name to
  the member added last under it.
\<close>

theorem duplicate_names_registry:
  assumes "wf_decl (E n)" and "registry_ok E R"
  shows "rpoco_type_info_get (E n) (R n) = Inr (built (E n))
   \<and> fields_vec (built (E n)) = members_of (E n)
   \<and> ti_size (built (E n)) = length (heads (E n))
   \<and> visit E R (TRecord n) None (VRec ms)
       = pre [EvStart vt_object]
           (seq (collect_res
                   (map (\<lambda>m. pre [EvStr (m_name m)] (field_visit (visit E R) m None ms))
                        (members_of (E n))))
                (\<lambda>_. Inr ([EvEnd vt_object], VRec ms)))
   \<and> fst (at_name (built (E n)) nm) = last_named (members_of (E n)) nm
   \<and> (\<forall>m. last_named (members_of (E n)) nm = Some m \<longrightarrow>
         (\<exists>i < length (members_of (E n)).
            members_of (E n) ! i = m \<and> m_name m = nm
            \<and> (\<forall>j. i < j \<and> j < length (members_of (E n)) \<longrightarrow> m_name (members_of (E n) ! j) \<noteq> nm))
         \<and> visit E R (TRecord n) (Some (DObj [(nm, u)])) (VRec ms)
             = pre [EvConsume vt_object]
                 (seq (field_visit (visit E R) m (Some u) ms) (\<lambda>ms'. ret (VRec ms'))))"
proof -
  have get: "rpoco_type_info_get (E n) (R n) = Inr (built (E n))"
    using assms by (rule rpoco_type_info_get_ok)
  have vec: "fields_vec (built (E n)) = members_of (E n)"
    by (simp add: built_def)
  have sz: "ti_size (built (E n)) = length (heads (E n))"
    by (simp add: ti_size_built length_members_of [OF assms(1)])
  have wr: "visit E R (TRecord n) None (VRec ms)
       = pre [EvStart vt_object]
           (seq (collect_res
                   (map (\<lambda>m. pre [EvStr (m_name m)] (field_visit (visit E R) m None ms))
                        (members_of (E n))))
                (\<lambda>_. Inr ([EvEnd vt_object], VRec ms)))"
    using visit_record_write [where E = E and R = R and n = n, OF get, of ms] by (simp add: vec)
  have lk: "fst (at_name (built (E n)) nm) = last_named (members_of (E n)) nm"
    by (cases "last_named (members_of (E n)) nm") (simp_all add: at_name_def built_def)
  have rd: "visit E R (TRecord n) (Some (DObj [(nm, u)])) (VRec ms)
             = pre [EvConsume vt_object]
                 (seq (field_visit (visit E R) m (Some u) ms) (\<lambda>ms'. ret (VRec ms')))"
    if "last_named (members_of (E n)) nm = Some m" for m
    using that
    by (simp add: visit_record_read [where E = E and R = R and n = n, OF get] member_cb_def
        has_built lk)
  show ?thesis
    using get vec sz wr lk rd last_named_Some by (intro conjI allI impI) blast+
qed

theorem duplicate_names_registry_witness:
  "wf_decl (dup_env ''D'') \<and> registry_ok dup_env fresh_registry
   \<and> ti_size (built (dup_env ''D'')) = 2
   \<and> visit dup_env fresh_registry (TRecord ''D'') None (VRec [VInt 1, VInt 2])
       = Inr ([EvStart vt_object, EvStr ''a'', EvInt 1, EvStr ''a'', EvInt 2, EvEnd vt_object],
              VRec [VInt 1, VInt 2])
   \<and> last_named (members_of (dup_env ''D'')) ''a''
       = Some \<lparr>m_name = ''a'', m_offset = 1, m_type = TInt\<rparr>
   \<and> visit dup_env fresh_registry (TRecord ''D'') (Some (DObj [(''a'', DNum 9)]))
         (VRec [VInt 1, VInt 2])
       = Inr ([EvConsume vt_object, EvInt 9], VRec [VInt 1, VInt 9])"
proof -
  note inst = duplicate_names_registry [where E = dup_env and n = "''D''" and R = fresh_registry
      and ms = "[VInt 1, VInt 2]" and nm = "''a''" and u = "DNum 9",
      OF wf_dup_env registry_ok_fresh]
  have ms: "members_of (dup_env ''D'')
      = [\<lparr>m_name = ''a'', m_offset = 0, m_type = TInt\<rparr>,
         \<lparr>m_name = ''a'', m_offset = 1, m_type = TInt\<rparr>]"
    by code_simp
  have ln: "last_named (members_of (dup_env ''D'')) ''a''
      = Some \<lparr>m_name = ''a'', m_offset = 1, m_type = TInt\<rparr>"
    by (simp add: ms last_named_def)
  have sz: "ti_size (built (dup_env ''D'')) = 2"
    using inst by (simp add: dup_env_def)
  have wr: "visit dup_env fresh_registry (TRecord ''D'') None (VRec [VInt 1, VInt 2])
       = Inr ([EvStart vt_object, EvStr ''a'', EvInt 1, EvStr ''a'', EvInt 2, EvEnd vt_object],
              VRec [VInt 1, VInt 2])"
    using inst [THEN conjunct2, THEN conjunct2, THEN conjunct2, THEN conjunct1]
    by (simp add: ms field_visit_def visit.simps(6))
  have rd: "visit dup_env fresh_registry (TRecord ''D'') (Some (DObj [(''a'', DNum 9)]))
         (VRec [VInt 1, VInt 2])
       = Inr ([EvConsume vt_object, EvInt 9], VRec [VInt 1, VInt 9])"
    by code_simp
  from wf_dup_env registry_ok_fresh sz wr ln rd show ?thesis by simp
qed



subsection \<open>The round trip\<close>




end
